theory Spec2Isabelle
  imports Main "HOL-Library.Sublist" "HOL-Library.Multiset" "HOL-Library.Char_ord"
    "HOL-Library.List_Lexorder" "HOL-Library.Product_Lexorder"
begin

section \<open>Composite key codec (rotkehlchen/globaldb/cache.py)\<close>

text \<open>
  A key part is either a member of the \<open>CacheType\<close> enumeration or a raw string
  (\<open>Union[str, CacheType]\<close>). The enumeration and its \<open>serialize\<close> method are declared
  in \<open>rotkehlchen/types.py\<close>, which is not among the sources: the enumeration is the type
  parameter \<open>'tag\<close>, \<open>serialize\<close> is the parameter \<open>ser\<close> of every function that
  builds a key, and the member \<open>CURVE_POOL_TOKENS\<close> is a parameter of the pool-token
  functions.
\<close>

datatype 'tag key_part = Tag 'tag | Raw string

text \<open>The piece one part adds to the key: the two branches of the \<open>isinstance\<close> test.\<close>

fun emit :: "('tag \<Rightarrow> string) \<Rightarrow> 'tag key_part \<Rightarrow> string" where
  "emit ser (Tag t) = ser t"
| "emit ser (Raw s) = s"

text \<open>
  The loop of \<open>compute_cache_key\<close>: \<open>cache_key\<close> starts empty and every part is
  appended to it, in iteration order.
\<close>

fun compute_cache_key_loop :: "('tag \<Rightarrow> string) \<Rightarrow> string \<Rightarrow> 'tag key_part list \<Rightarrow> string" where
  "compute_cache_key_loop ser cache_key [] = cache_key"
| "compute_cache_key_loop ser cache_key (part # key_parts) =
     compute_cache_key_loop ser (cache_key @ emit ser part) key_parts"

definition compute_cache_key :: "('tag \<Rightarrow> string) \<Rightarrow> 'tag key_part list \<Rightarrow> string" where
  "compute_cache_key ser key_parts = compute_cache_key_loop ser [] key_parts"

text \<open>
  The specification's wording of the codec, to compare the loop with: the emitted pieces,
  concatenated in input order with no delimiter.
\<close>

definition concat_pieces :: "('tag \<Rightarrow> string) \<Rightarrow> 'tag key_part list \<Rightarrow> string" where
  "concat_pieces ser key_parts = concat (map (emit ser) key_parts)"

text \<open>
  \<open>ZERO_ADDRESS\<close> of \<open>rotkehlchen/chain/evm/constants.py\<close> (not among the sources):
  the textual zero address, \<open>0x\<close> followed by forty zeros. Only its length is used.
\<close>

definition ZERO_ADDRESS :: string where
  "ZERO_ADDRESS = ''0x'' @ replicate 40 CHR ''0''"

definition BASE_POOL_TOKENS_KEY_LENGTH :: "('tag \<Rightarrow> string) \<Rightarrow> 'tag \<Rightarrow> nat" where
  "BASE_POOL_TOKENS_KEY_LENGTH ser CURVE_POOL_TOKENS =
     length (compute_cache_key ser [Tag CURVE_POOL_TOKENS, Raw ZERO_ADDRESS])"


section \<open>The two cache tables\<close>

text \<open>
  A row of \<open>general_cache\<close> or \<open>unique_cache\<close>: \<open>(key, value, last_queried_ts)\<close>.
  A table is the list of its rows in storage order, and the cursor of the source is the
  database state itself: a write returns the new state.
\<close>

record cache_row =
  row_key :: string
  row_value :: string
  last_queried_ts :: int

record globaldb =
  general_cache :: "cache_row list"
  unique_cache :: "cache_row list"

text \<open>
  Modelled from the spec: the table declarations of the global database are not among the
  sources. The storage schema of the specification makes \<open>(key, value)\<close> unique in
  \<open>general_cache\<close> and \<open>key\<close> the primary key of \<open>unique_cache\<close>.
  \<open>INSERT OR REPLACE\<close> deletes the rows that conflict with the new row on the
  uniqueness constraint and then inserts the new row.
\<close>

definition insert_or_replace_general :: "cache_row list \<Rightarrow> cache_row \<Rightarrow> cache_row list" where
  "insert_or_replace_general tbl r =
     filter (\<lambda>x. \<not> (row_key x = row_key r \<and> row_value x = row_value r)) tbl @ [r]"

definition insert_or_replace_unique :: "cache_row list \<Rightarrow> cache_row \<Rightarrow> cache_row list" where
  "insert_or_replace_unique tbl r = filter (\<lambda>x. row_key x \<noteq> row_key r) tbl @ [r]"

text \<open>
  The \<open>LIKE\<close> operator of the storage engine (SQLite), with no \<open>ESCAPE\<close> clause, as
  the two prefix queries use it: \<open>%\<close> in the pattern matches any run of characters,
  \<open>_\<close> matches any single character, and every other character matches itself up to
  the case of the ASCII letters (the engine's default).
\<close>

definition ascii_lower :: "char \<Rightarrow> char" where
  "ascii_lower c =
     (let n = (of_char c :: nat) in if 65 \<le> n \<and> n \<le> 90 then char_of (n + 32) else c)"

fun like :: "string \<Rightarrow> string \<Rightarrow> bool" where
  "like [] [] = True"
| "like [] (c # cs) = False"
| "like (p # ps) [] = (p = CHR ''%'' \<and> like ps [])"
| "like (p # ps) (c # cs) =
     (if p = CHR ''%'' then like ps (c # cs) \<or> like (p # ps) cs
      else (p = CHR ''_'' \<or> ascii_lower p = ascii_lower c) \<and> like ps cs)"

text \<open>
  The engine keeps an index for the uniqueness constraint on \<open>(key, value)\<close> of
  \<open>general_cache\<close> and answers the queries on that table from it, so the selected
  rows come in ascending order of \<open>(key, value)\<close>, strings compared character by
  character.
\<close>

definition index_order :: "cache_row list \<Rightarrow> cache_row list" where
  "index_order rows = sort_key (\<lambda>r. (row_key r, row_value r)) rows"

text \<open>\<open>executemany\<close> runs the statement once per tuple, in order.\<close>

definition globaldb_set_general_cache_values_at_ts ::
  "('tag \<Rightarrow> string) \<Rightarrow> globaldb \<Rightarrow> 'tag key_part list \<Rightarrow> string list \<Rightarrow> int \<Rightarrow> globaldb" where
  "globaldb_set_general_cache_values_at_ts ser db key_parts vals timestamp =
     (let cache_key = compute_cache_key ser key_parts;
          tuples = map (\<lambda>v. \<lparr>row_key = cache_key, row_value = v, last_queried_ts = timestamp\<rparr>) vals
      in db\<lparr>general_cache := foldl insert_or_replace_general (general_cache db) tuples\<rparr>)"

text \<open>The variant that stamps the current time; \<open>ts_now()\<close> is the parameter \<open>now\<close>.\<close>

definition globaldb_set_general_cache_values ::
  "('tag \<Rightarrow> string) \<Rightarrow> int \<Rightarrow> globaldb \<Rightarrow> 'tag key_part list \<Rightarrow> string list \<Rightarrow> globaldb" where
  "globaldb_set_general_cache_values ser now db key_parts vals =
     globaldb_set_general_cache_values_at_ts ser db key_parts vals now"

definition globaldb_get_general_cache_values ::
  "('tag \<Rightarrow> string) \<Rightarrow> globaldb \<Rightarrow> 'tag key_part list \<Rightarrow> string list" where
  "globaldb_get_general_cache_values ser db key_parts =
     (let cache_key = compute_cache_key ser key_parts
      in map row_value (index_order (filter (\<lambda>r. row_key r = cache_key) (general_cache db))))"

definition globaldb_set_unique_cache_value_at_ts ::
  "('tag \<Rightarrow> string) \<Rightarrow> globaldb \<Rightarrow> 'tag key_part list \<Rightarrow> string \<Rightarrow> int \<Rightarrow> globaldb" where
  "globaldb_set_unique_cache_value_at_ts ser db key_parts v timestamp =
     (let cache_key = compute_cache_key ser key_parts
      in db\<lparr>unique_cache := insert_or_replace_unique (unique_cache db)
            \<lparr>row_key = cache_key, row_value = v, last_queried_ts = timestamp\<rparr>\<rparr>)"

definition globaldb_set_unique_cache_value ::
  "('tag \<Rightarrow> string) \<Rightarrow> int \<Rightarrow> globaldb \<Rightarrow> 'tag key_part list \<Rightarrow> string \<Rightarrow> globaldb" where
  "globaldb_set_unique_cache_value ser now db key_parts v =
     globaldb_set_unique_cache_value_at_ts ser db key_parts v now"

text \<open>\<open>fetchone\<close> gives the first row of the result, or \<open>None\<close> when there is none.\<close>

definition globaldb_get_unique_cache_value ::
  "('tag \<Rightarrow> string) \<Rightarrow> globaldb \<Rightarrow> 'tag key_part list \<Rightarrow> string option" where
  "globaldb_get_unique_cache_value ser db key_parts =
     (let cache_key = compute_cache_key ser key_parts
      in case filter (\<lambda>r. row_key r = cache_key) (unique_cache db) of
           [] \<Rightarrow> None
         | result # _ \<Rightarrow> Some (row_value result))"

text \<open>The pattern handed to \<open>LIKE\<close> is the f-string \<open>{cache_key}%\<close>.\<close>

definition globaldb_get_general_cache_like ::
  "('tag \<Rightarrow> string) \<Rightarrow> globaldb \<Rightarrow> 'tag key_part list \<Rightarrow> string list" where
  "globaldb_get_general_cache_like ser db key_parts =
     (let cache_key = compute_cache_key ser key_parts
      in map row_value
           (index_order (filter (\<lambda>r. like (cache_key @ ''%'') (row_key r)) (general_cache db))))"

definition globaldb_get_general_cache_keys_and_values_like ::
  "('tag \<Rightarrow> string) \<Rightarrow> globaldb \<Rightarrow> 'tag key_part list \<Rightarrow> (string \<times> string) list" where
  "globaldb_get_general_cache_keys_and_values_like ser db key_parts =
     (let cache_key = compute_cache_key ser key_parts
      in map (\<lambda>r. (row_key r, row_value r))
           (index_order (filter (\<lambda>r. like (cache_key @ ''%'') (row_key r)) (general_cache db))))"

text \<open>\<open>ORDER BY last_queried_ts ASC\<close> sorts the selected rows; \<open>Timestamp(0)\<close> is 0.\<close>

definition globaldb_get_general_cache_last_queried_ts_by_key ::
  "('tag \<Rightarrow> string) \<Rightarrow> globaldb \<Rightarrow> 'tag key_part list \<Rightarrow> int" where
  "globaldb_get_general_cache_last_queried_ts_by_key ser db key_parts =
     (let cache_key = compute_cache_key ser key_parts
      in case sort_key last_queried_ts (filter (\<lambda>r. row_key r = cache_key) (general_cache db)) of
           [] \<Rightarrow> 0
         | result # _ \<Rightarrow> last_queried_ts result)"

definition globaldb_get_unique_cache_last_queried_ts_by_key ::
  "('tag \<Rightarrow> string) \<Rightarrow> globaldb \<Rightarrow> 'tag key_part list \<Rightarrow> int" where
  "globaldb_get_unique_cache_last_queried_ts_by_key ser db key_parts =
     (let cache_key = compute_cache_key ser key_parts
      in case sort_key last_queried_ts (filter (\<lambda>r. row_key r = cache_key) (unique_cache db)) of
           [] \<Rightarrow> 0
         | result # _ \<Rightarrow> last_queried_ts result)"


section \<open>Reading the tokens of a curve pool\<close>

text \<open>
  Python's \<open>int(s)\<close>. A character of the model is a code point below 256. The white
  space that \<open>int\<close> strips at both ends is the six characters tab, line feed, vertical
  tab, form feed, carriage return and space, and of the code points from 128 on the two
  that are Unicode white space, U+0085 and U+00A0 (the separators U+001C to U+001F are not
  stripped). One sign may lead, and the digits may be separated by single underscores;
  anything else raises \<open>ValueError\<close>. No code point from 128 to 255 is a decimal digit.
  (Code points from 256 on, and the interpreter's cap on the number of digits, are outside
  this model.)
\<close>

datatype py_error = ValueError

definition py_isspace :: "char \<Rightarrow> bool" where
  "py_isspace c = ((of_char c :: nat) \<in> {9, 10, 11, 12, 13, 32, 133, 160})"

definition is_digit :: "char \<Rightarrow> bool" where
  "is_digit c = (48 \<le> (of_char c :: nat) \<and> (of_char c :: nat) \<le> 57)"

definition digit_val :: "char \<Rightarrow> nat" where
  "digit_val c = of_char c - 48"

fun scan_digits :: "bool \<Rightarrow> nat \<Rightarrow> string \<Rightarrow> (nat \<times> string) option" where
  "scan_digits prev_underscore acc [] = (if prev_underscore then None else Some (acc, []))"
| "scan_digits prev_underscore acc (c # cs) =
     (if is_digit c then scan_digits False (acc * 10 + digit_val c) cs
      else if c = CHR ''_'' then (if prev_underscore then None else scan_digits True acc cs)
      else if prev_underscore then None else Some (acc, c # cs))"

definition py_int :: "string \<Rightarrow> py_error + int" where
  "py_int s =
     (let s1 = dropWhile py_isspace s;
          (negative, s2) =
            (case s1 of
               [] \<Rightarrow> (False, [])
             | c # cs \<Rightarrow>
                 if c = CHR ''+'' then (False, cs)
                 else if c = CHR ''-'' then (True, cs)
                 else (False, s1))
      in case s2 of
           [] \<Rightarrow> Inl ValueError
         | c # _ \<Rightarrow>
             if \<not> is_digit c then Inl ValueError
             else (case scan_digits False 0 s2 of
                     None \<Rightarrow> Inl ValueError
                   | Some (n, rest) \<Rightarrow>
                       if dropWhile py_isspace rest = []
                       then Inr (if negative then - int n else int n)
                       else Inl ValueError))"

text \<open>
  The strings that \<open>int\<close> accepts, in words: after the white space at both ends is
  stripped and one leading sign is dropped, what is left is a decimal digit followed by
  further digits, each of which may have a single underscore before it.
\<close>

fun digit_groups :: "string \<Rightarrow> bool" and digit_tail :: "string \<Rightarrow> bool" where
  "digit_groups [] = False"
| "digit_groups (c # cs) = (is_digit c \<and> digit_tail cs)"
| "digit_tail [] = True"
| "digit_tail (c # cs) =
     (if c = CHR ''_'' then digit_groups cs else is_digit c \<and> digit_tail cs)"

definition strip_space :: "string \<Rightarrow> string" where
  "strip_space s = rev (dropWhile py_isspace (rev (dropWhile py_isspace s)))"

definition drop_sign :: "string \<Rightarrow> string" where
  "drop_sign s =
     (case s of [] \<Rightarrow> [] | c # cs \<Rightarrow> if c = CHR ''+'' \<or> c = CHR ''-'' then cs else s)"

definition int_literal :: "string \<Rightarrow> bool" where
  "int_literal s = digit_groups (drop_sign (strip_space s))"


text \<open>Python's \<open>str(n)\<close> for a natural number: its decimal digits.\<close>

definition digit_char :: "nat \<Rightarrow> char" where
  "digit_char d = char_of (48 + d)"

fun py_str :: "nat \<Rightarrow> string" where
  "py_str n = (if n < 10 then [digit_char n] else py_str (n div 10) @ [digit_char (n mod 10)])"

declare py_str.simps [simp del]

text \<open>
  Modelled from the spec: \<open>string_to_evm_address\<close> of \<open>rotkehlchen/chain/evm/types.py\<close>
  is not among the sources. The specification has the reader pair the index with the stored
  value itself and return the values, so the conversion leaves the string as it is.
\<close>

definition string_to_evm_address :: "string \<Rightarrow> string" where
  "string_to_evm_address v = v"

text \<open>
  The \<open>for\<close> loop of \<open>read_curve_pool_tokens\<close>: \<open>key[BASE_POOL_TOKENS_KEY_LENGTH:]\<close>
  is \<open>drop\<close> (a slice past the end is the empty string), and a \<open>ValueError\<close> of
  \<open>int\<close> leaves the function.
\<close>

fun collect_found_tokens ::
  "nat \<Rightarrow> (int \<times> string) list \<Rightarrow> (string \<times> string) list \<Rightarrow> py_error + (int \<times> string) list" where
  "collect_found_tokens base found_tokens [] = Inr found_tokens"
| "collect_found_tokens base found_tokens ((key, address) # tokens_data) =
     (case py_int (drop base key) of
        Inl e \<Rightarrow> Inl e
      | Inr index \<Rightarrow>
          collect_found_tokens base
            (found_tokens @ [(index, string_to_evm_address address)]) tokens_data)"

text \<open>\<open>list.sort(key=...)\<close> is a stable sort by the key, as \<open>sort_key\<close> is.\<close>

definition read_curve_pool_tokens ::
  "('tag \<Rightarrow> string) \<Rightarrow> 'tag \<Rightarrow> globaldb \<Rightarrow> string \<Rightarrow> py_error + string list" where
  "read_curve_pool_tokens ser CURVE_POOL_TOKENS db pool_address =
     (let tokens_data = globaldb_get_general_cache_keys_and_values_like ser db
                          [Tag CURVE_POOL_TOKENS, Raw pool_address]
      in case collect_found_tokens (BASE_POOL_TOKENS_KEY_LENGTH ser CURVE_POOL_TOKENS) [] tokens_data of
           Inl e \<Rightarrow> Inl e
         | Inr found_tokens \<Rightarrow> Inr (map snd (sort_key fst found_tokens)))"

text \<open>
  Modelled from the spec: the code that stores the tokens of a pool is not among the
  sources. The specification writes token \<open>i\<close> of pool \<open>X\<close> under the key made of the
  pool-tokens tag, \<open>X\<close> and the decimal index \<open>i\<close>; the writes happen in the order of
  the list, one call of \<open>globaldb_set_general_cache_values_at_ts\<close> each.
\<close>

fun store_curve_pool_tokens ::
  "('tag \<Rightarrow> string) \<Rightarrow> 'tag \<Rightarrow> globaldb \<Rightarrow> string \<Rightarrow> (nat \<times> string) list \<Rightarrow> int \<Rightarrow> globaldb" where
  "store_curve_pool_tokens ser CURVE_POOL_TOKENS db pool_address [] timestamp = db"
| "store_curve_pool_tokens ser CURVE_POOL_TOKENS db pool_address ((index, token) # rest) timestamp =
     store_curve_pool_tokens ser CURVE_POOL_TOKENS
       (globaldb_set_general_cache_values_at_ts ser db
          [Tag CURVE_POOL_TOKENS, Raw pool_address, Raw (py_str index)] [token] timestamp)
       pool_address rest timestamp"

text \<open>The row such a write stores, for the key prefix \<open>pfx\<close>.\<close>

definition pool_token_row :: "string \<Rightarrow> int \<Rightarrow> nat \<times> string \<Rightarrow> cache_row" where
  "pool_token_row pfx ts w =
     \<lparr>row_key = pfx @ py_str (fst w), row_value = snd w, last_queried_ts = ts\<rparr>"


section \<open>Accounting rules manager (rotkehlchen/accounting/rules.py)\<close>

text \<open>
  Modelled from the spec: the event classes and \<open>get_event_type_identifier\<close> are not among
  the sources. An event is a plain history entry, which carries no counterparty, or an
  \<open>EvmEvent\<close>, which carries an optional one. The function from
  \<open>(event_type, event_subtype, counterparty)\<close> to the integer identifier is the parameter
  \<open>get_event_type_identifier\<close>; an event's identifier includes its counterparty when the
  event carries one and \<open>include_counterparty\<close> is set.
\<close>

datatype ('t, 's) history_event =
  HistoryBaseEntry 't 's
| EvmEvent 't 's "string option"

fun is_EvmEvent :: "('t, 's) history_event \<Rightarrow> bool" where
  "is_EvmEvent (HistoryBaseEntry _ _) = False"
| "is_EvmEvent (EvmEvent _ _ _) = True"

fun get_type_identifier ::
  "('t \<Rightarrow> 's \<Rightarrow> string option \<Rightarrow> int) \<Rightarrow> ('t, 's) history_event \<Rightarrow> bool \<Rightarrow> int" where
  "get_type_identifier get_event_type_identifier (HistoryBaseEntry event_type event_subtype)
     include_counterparty = get_event_type_identifier event_type event_subtype None"
| "get_type_identifier get_event_type_identifier (EvmEvent event_type event_subtype counterparty)
     include_counterparty =
       get_event_type_identifier event_type event_subtype
         (if include_counterparty then counterparty else None)"

text \<open>
  The manager's state. Modelled from the spec: of the two collaborators, \<open>database\<close> is
  the list of \<open>(event_key, rule)\<close> that the rule query returns, and \<open>aggregators\<close>
  is the mapping that \<open>get_accounting_callbacks\<close> returns after the aggregators' reset.
\<close>

record ('t, 's, 'rule, 'cb) accounting_rules_manager =
  database :: "(('t \<times> 's \<times> string option) \<times> 'rule) list"
  aggregators :: "int \<rightharpoonup> 'cb"
  event_settings :: "int \<rightharpoonup> 'rule"
  event_callbacks :: "int \<rightharpoonup> 'cb"

fun query_db_rules_loop ::
  "('t \<Rightarrow> 's \<Rightarrow> string option \<Rightarrow> int) \<Rightarrow> (int \<rightharpoonup> 'rule)
     \<Rightarrow> (('t \<times> 's \<times> string option) \<times> 'rule) list \<Rightarrow> (int \<rightharpoonup> 'rule)" where
  "query_db_rules_loop get_event_type_identifier settings [] = settings"
| "query_db_rules_loop get_event_type_identifier settings (((t, s, c), rule) # rules_info) =
     query_db_rules_loop get_event_type_identifier
       (settings(get_event_type_identifier t s c \<mapsto> rule)) rules_info"

definition query_db_rules ::
  "('t \<Rightarrow> 's \<Rightarrow> string option \<Rightarrow> int) \<Rightarrow> ('t, 's, 'rule, 'cb) accounting_rules_manager
     \<Rightarrow> ('t, 's, 'rule, 'cb) accounting_rules_manager" where
  "query_db_rules get_event_type_identifier m =
     m\<lparr>event_settings :=
         query_db_rules_loop get_event_type_identifier (event_settings m) (database m)\<rparr>"

definition get_event_settings ::
  "('t \<Rightarrow> 's \<Rightarrow> string option \<Rightarrow> int) \<Rightarrow> ('t, 's, 'rule, 'cb) accounting_rules_manager
     \<Rightarrow> ('t, 's) history_event \<Rightarrow> 'rule option \<times> 'cb option" where
  "get_event_settings get_event_type_identifier m event =
     (let event_identifier = get_type_identifier get_event_type_identifier event True;
          rule = event_settings m event_identifier
      in if \<not> is_EvmEvent event \<or> rule \<noteq> None
         then (rule, event_callbacks m event_identifier)
         else (let event_identifier = get_type_identifier get_event_type_identifier event False
               in (event_settings m event_identifier, event_callbacks m event_identifier)))"

definition reset ::
  "('t \<Rightarrow> 's \<Rightarrow> string option \<Rightarrow> int) \<Rightarrow> ('t, 's, 'rule, 'cb) accounting_rules_manager
     \<Rightarrow> ('t, 's, 'rule, 'cb) accounting_rules_manager" where
  "reset get_event_type_identifier m =
     (query_db_rules get_event_type_identifier m)\<lparr>event_callbacks := aggregators m\<rparr>"

definition clean_rules ::
  "('t, 's, 'rule, 'cb) accounting_rules_manager \<Rightarrow> ('t, 's, 'rule, 'cb) accounting_rules_manager" where
  "clean_rules m = m\<lparr>event_settings := Map.empty, event_callbacks := Map.empty\<rparr>"

text \<open>
  The calls a client can make on the manager, and their effect on its state
  (\<open>get_event_settings\<close> assigns nothing).
\<close>

datatype ('t, 's) manager_call =
  Reset
| CleanRules
| GetEventSettings "('t, 's) history_event"

fun call_manager ::
  "('t \<Rightarrow> 's \<Rightarrow> string option \<Rightarrow> int) \<Rightarrow> ('t, 's, 'rule, 'cb) accounting_rules_manager
     \<Rightarrow> ('t, 's) manager_call \<Rightarrow> ('t, 's, 'rule, 'cb) accounting_rules_manager" where
  "call_manager get_event_type_identifier m Reset = reset get_event_type_identifier m"
| "call_manager get_event_type_identifier m CleanRules = clean_rules m"
| "call_manager get_event_type_identifier m (GetEventSettings event) = m"


section \<open>Lemmas about the codec\<close>

lemma compute_cache_key_loop_acc:
  "compute_cache_key_loop ser acc ps = acc @ concat (map (emit ser) ps)"
  by (induction ps arbitrary: acc) simp_all

lemma compute_cache_key_concat:
  "compute_cache_key ser ps = concat (map (emit ser) ps)"
  by (simp add: compute_cache_key_def compute_cache_key_loop_acc)

lemma compute_cache_key_pair [simp]:
  "compute_cache_key ser [Tag t, Raw p] = ser t @ p"
  by (simp add: compute_cache_key_concat)

lemma compute_cache_key_triple [simp]:
  "compute_cache_key ser [Tag t, Raw p, Raw s] = ser t @ p @ s"
  by (simp add: compute_cache_key_concat)

lemma length_ZERO_ADDRESS [simp]: "length ZERO_ADDRESS = 42"
  by (simp add: ZERO_ADDRESS_def)

lemma BASE_POOL_TOKENS_KEY_LENGTH_eq:
  "BASE_POOL_TOKENS_KEY_LENGTH ser t = length (ser t) + 42"
  by (simp add: BASE_POOL_TOKENS_KEY_LENGTH_def)


section \<open>Lemmas about the tables\<close>

lemma hd_sort_key_Min:
  assumes "xs \<noteq> []"
  shows "f (hd (sort_key f xs)) = Min (f ` set xs)"
proof -
  let ?ys = "sort_key f xs"
  have ne: "?ys \<noteq> []" using assms by (metis length_sort list.size(3) length_0_conv)
  then obtain y ys where ys: "?ys = y # ys" by (cases ?ys) auto
  have "sorted (map f ?ys)" by simp
  then have le: "\<forall>z\<in>set ?ys. f y \<le> f z" using ys by auto
  have "set ?ys = set xs" by simp
  then have "f y \<in> f ` set xs" and "\<forall>v\<in>f ` set xs. f y \<le> v" using ys le by auto
  then have "Min (f ` set xs) = f y" by (intro Min_eqI) auto
  then show ?thesis using ys by simp
qed

lemma oldest_ts_Min:
  "globaldb_get_general_cache_last_queried_ts_by_key ser db K =
     (if filter (\<lambda>r. row_key r = compute_cache_key ser K) (general_cache db) = [] then 0
      else Min (last_queried_ts ` set (filter (\<lambda>r. row_key r = compute_cache_key ser K) (general_cache db))))"
proof -
  let ?rows = "filter (\<lambda>r. row_key r = compute_cache_key ser K) (general_cache db)"
  show ?thesis
  proof (cases "?rows = []")
    case True
    then show ?thesis by (simp add: globaldb_get_general_cache_last_queried_ts_by_key_def)
  next
    case False
    then have "sort_key last_queried_ts ?rows \<noteq> []" by (metis length_sort length_0_conv)
    then obtain y ys where ys: "sort_key last_queried_ts ?rows = y # ys"
      by (cases "sort_key last_queried_ts ?rows") auto
    have "last_queried_ts y = Min (last_queried_ts ` set ?rows)"
      using hd_sort_key_Min [OF False, of last_queried_ts] ys by simp
    then show ?thesis using False ys
      by (simp add: globaldb_get_general_cache_last_queried_ts_by_key_def)
  qed
qed

lemma filter_key_absent:
  "\<forall>r\<in>set tbl. row_key r \<noteq> k \<Longrightarrow> filter (\<lambda>r. row_key r = k) tbl = []"
  by (induction tbl) auto


section \<open>Lemmas about the prefix match\<close>

lemma like_percent_any: "like ''%'' s"
  by (induction s) simp_all

lemma like_percent_skip: "like q t \<Longrightarrow> like (CHR ''%'' # q) t"
  by (cases t) simp_all

lemma like_own_prefix: "like (p @ ''%'') (p @ s)"
proof (induction p)
  case Nil
  show ?case using like_percent_any by simp
next
  case (Cons c p)
  show ?case
  proof (cases "c = CHR ''%''")
    case True
    have "like (CHR ''%'' # p @ ''%'') (p @ s)"
      using Cons.IH by (rule like_percent_skip)
    then show ?thesis using True by simp
  next
    case False
    then show ?thesis using Cons.IH by simp
  qed
qed

lemma like_prefix_casefold:
  assumes "\<forall>c\<in>set p. c \<noteq> CHR ''%'' \<and> c \<noteq> CHR ''_''"
  shows "like (p @ ''%'') s = prefix (map ascii_lower p) (map ascii_lower s)"
  using assms
proof (induction p arbitrary: s)
  case Nil
  show ?case using like_percent_any by simp
next
  case (Cons c p)
  then have IH: "\<And>t. like (p @ ''%'') t = prefix (map ascii_lower p) (map ascii_lower t)"
    by simp
  from Cons.prems have c: "c \<noteq> CHR ''%''" "c \<noteq> CHR ''_''" by simp_all
  show ?case
  proof (cases s)
    case Nil
    then show ?thesis using c by simp
  next
    case (Cons d ds)
    then show ?thesis using c IH by simp
  qed
qed



section \<open>Lemmas about int and str\<close>

lemma is_digit_digit_char: "d < 10 \<Longrightarrow> is_digit (digit_char d)"
  by (simp add: is_digit_def digit_char_def)

lemma digit_val_digit_char: "d < 10 \<Longrightarrow> digit_val (digit_char d) = d"
  by (simp add: digit_val_def digit_char_def)

lemma scan_digits_py_str:
  "scan_digits u acc (py_str n @ rest) =
     scan_digits False (acc * 10 ^ length (py_str n) + n) rest"
proof (induction n arbitrary: u acc rest rule: py_str.induct)
  case (1 n)
  show ?case
  proof (cases "n < 10")
    case True
    then show ?thesis
      by (simp add: py_str.simps [of n] is_digit_digit_char digit_val_digit_char)
  next
    case False
    have m: "n mod 10 < 10" by simp
    have "scan_digits u acc (py_str n @ rest) =
          scan_digits u acc (py_str (n div 10) @ (digit_char (n mod 10) # rest))"
      using False by (simp add: py_str.simps [of n])
    also have "\<dots> = scan_digits False (acc * 10 ^ length (py_str (n div 10)) + n div 10)
                        (digit_char (n mod 10) # rest)"
      using False by (rule "1.IH")
    also have "\<dots> = scan_digits False
                        ((acc * 10 ^ length (py_str (n div 10)) + n div 10) * 10 + n mod 10) rest"
      using m by (simp add: is_digit_digit_char digit_val_digit_char)
    also have "(acc * 10 ^ length (py_str (n div 10)) + n div 10) * 10 + n mod 10
               = acc * 10 ^ length (py_str n) + n"
      using False by (simp add: py_str.simps [of n] algebra_simps)
    finally show ?thesis .
  qed
qed

lemma py_str_head: "\<exists>c cs. py_str n = c # cs \<and> is_digit c"
proof (induction n rule: py_str.induct)
  case (1 n)
  show ?case
  proof (cases "n < 10")
    case True
    then show ?thesis by (simp add: py_str.simps [of n] is_digit_digit_char)
  next
    case False
    then obtain c cs where "py_str (n div 10) = c # cs" "is_digit c" using "1.IH" by blast
    then show ?thesis using False by (simp add: py_str.simps [of n])
  qed
qed

lemma is_digit_not_space: "is_digit c \<Longrightarrow> \<not> py_isspace c"
  by (auto simp: is_digit_def py_isspace_def)

lemma is_digit_not_sign: "is_digit c \<Longrightarrow> c \<noteq> CHR ''+'' \<and> c \<noteq> CHR ''-''"
  by (auto simp: is_digit_def)

lemma py_int_py_str: "py_int (py_str n) = Inr (int n)"
proof -
  obtain c cs where h: "py_str n = c # cs" "is_digit c" using py_str_head by blast
  have s: "scan_digits False 0 (py_str n) = Some (n, [])"
    using scan_digits_py_str [of False 0 n "[]"] by simp
  show ?thesis
    using h s is_digit_not_space [OF h(2)] is_digit_not_sign [OF h(2)]
    by (simp add: py_int_def)
qed

lemma py_str_inj: "py_str m = py_str n \<Longrightarrow> m = n"
proof -
  assume "py_str m = py_str n"
  then have "py_int (py_str m) = py_int (py_str n)" by simp
  then show "m = n" by (simp add: py_int_py_str)
qed

lemma py_int_empty: "py_int [] = Inl ValueError"
  by (simp add: py_int_def)


section \<open>Lemmas about the pool-token reader\<close>


lemma collect_found_tokens_indexed:
  "collect_found_tokens (length pfx) found (map (\<lambda>(i, a). (pfx @ py_str i, a)) ws)
     = Inr (found @ map (\<lambda>(i, a). (int i, a)) ws)"
proof (induction ws arbitrary: found)
  case Nil
  show ?case by simp
next
  case (Cons w ws)
  obtain i a where w: "w = (i, a)" by (cases w)
  show ?case using Cons.IH [of "found @ [(int i, a)]"] w
    by (simp add: py_int_py_str string_to_evm_address_def)
qed

lemma insort_key_int_fst:
  "map (\<lambda>(i, a). (int i, a)) (insort_key fst x xs)
     = insort_key fst ((\<lambda>(i, a). (int i, a)) x) (map (\<lambda>(i, a). (int i, a)) xs)"
  by (induction xs) (auto simp: case_prod_beta)

lemma sort_key_int_fst:
  "sort_key fst (map (\<lambda>(i, a). (int i, a)) (ws :: (nat \<times> 'a) list))
     = map (\<lambda>(i, a). (int i, a)) (sort_key fst ws)"
  by (induction ws) (simp_all add: insort_key_int_fst)

lemma map_snd_int_fst: "map snd (map (\<lambda>(i, a). (int i, a)) ws) = map snd ws"
  by (induction ws) auto

lemma store_curve_pool_tokens_matching:
  assumes "distinct (map fst ws)"
    and "\<forall>r\<in>set (general_cache db). like (ser t @ X @ ''%'') (row_key r) \<longrightarrow>
           row_key r \<notin> (\<lambda>w. ser t @ X @ py_str (fst w)) ` set ws"
  shows "filter (\<lambda>r. like (ser t @ X @ ''%'') (row_key r))
           (general_cache (store_curve_pool_tokens ser t db X ws ts))
         = filter (\<lambda>r. like (ser t @ X @ ''%'') (row_key r)) (general_cache db)
           @ map (pool_token_row (ser t @ X) ts) ws"
  using assms
proof (induction ws arbitrary: db)
  case Nil
  show ?case by simp
next
  case (Cons w ws)
  obtain i a where w: "w = (i, a)" by (cases w)
  let ?m = "\<lambda>r. like (ser t @ X @ ''%'') (row_key r)"
  let ?r = "pool_token_row (ser t @ X) ts w"
  let ?db = "globaldb_set_general_cache_values_at_ts ser db [Tag t, Raw X, Raw (py_str i)] [a] ts"
  have gc: "general_cache ?db =
              filter (\<lambda>x. \<not> (row_key x = row_key ?r \<and> row_value x = row_value ?r)) (general_cache db) @ [?r]"
    using w by (simp add: globaldb_set_general_cache_values_at_ts_def insert_or_replace_general_def
        pool_token_row_def Let_def)
  have mr: "?m ?r"
    using like_own_prefix [of "ser t @ X" "py_str (fst w)"] by (simp add: pool_token_row_def)
  have keep: "filter ?m (filter (\<lambda>x. \<not> (row_key x = row_key ?r \<and> row_value x = row_value ?r)) (general_cache db))
              = filter ?m (general_cache db)"
  proof -
    have "\<forall>x\<in>set (general_cache db). ?m x \<longrightarrow> row_key x \<noteq> row_key ?r"
      using Cons.prems(2) by (auto simp: pool_token_row_def)
    then show ?thesis by (auto simp: filter_filter intro: filter_cong)
  qed
  have f: "filter ?m (general_cache ?db) = filter ?m (general_cache db) @ [?r]"
    using gc mr keep by simp
  have d: "distinct (map fst ws)" using Cons.prems(1) by simp
  have fresh: "\<forall>r\<in>set (general_cache ?db). ?m r \<longrightarrow>
                 row_key r \<notin> (\<lambda>w. ser t @ X @ py_str (fst w)) ` set ws"
  proof (intro ballI impI)
    fix r assume r: "r \<in> set (general_cache ?db)" and m: "?m r"
    show "row_key r \<notin> (\<lambda>w. ser t @ X @ py_str (fst w)) ` set ws"
    proof (cases "r = ?r")
      case True
      have "fst w \<notin> fst ` set ws" using Cons.prems(1) by simp
      then show ?thesis using True by (auto simp: pool_token_row_def dest: py_str_inj)
    next
      case False
      then have "r \<in> set (general_cache db)" using r gc by auto
      then show ?thesis using Cons.prems(2) m by auto
    qed
  qed
  have "filter ?m (general_cache (store_curve_pool_tokens ser t db X (w # ws) ts))
        = filter ?m (general_cache (store_curve_pool_tokens ser t ?db X ws ts))"
    using w by simp
  also have "\<dots> = filter ?m (general_cache ?db) @ map (pool_token_row (ser t @ X) ts) ws"
    using d fresh by (rule Cons.IH)
  finally show ?case using f by simp
qed


section \<open>Lemmas about the rules manager\<close>

lemma clean_then_calls_empty:
  "Reset \<notin> set calls \<Longrightarrow> event_settings m = Map.empty \<Longrightarrow> event_callbacks m = Map.empty \<Longrightarrow>
     event_settings (foldl (call_manager ident) m calls) = Map.empty
     \<and> event_callbacks (foldl (call_manager ident) m calls) = Map.empty"
proof (induction calls arbitrary: m)
  case Nil
  then show ?case by simp
next
  case (Cons c calls)
  then show ?case by (cases c) (simp_all add: clean_rules_def)
qed


section \<open>Lemmas about the order of the query results\<close>

lemma set_index_order [simp]: "set (index_order rows) = set rows"
  by (simp add: index_order_def)

lemma mset_index_order [simp]: "mset (index_order rows) = mset rows"
  by (simp add: index_order_def)

text \<open>
  What the prefix query returns when the computed key holds neither \<open>%\<close> nor \<open>_\<close>:
  the values of the rows whose key starts with the computed key up to the case of the ASCII
  letters.
\<close>

lemma get_general_cache_like_casefold:
  assumes "\<forall>c\<in>set (compute_cache_key ser key_parts). c \<noteq> CHR ''%'' \<and> c \<noteq> CHR ''_''"
  shows "globaldb_get_general_cache_like ser db key_parts =
           map row_value
             (index_order
               (filter (\<lambda>r. prefix (map ascii_lower (compute_cache_key ser key_parts))
                                   (map ascii_lower (row_key r)))
                  (general_cache db)))"
  using like_prefix_casefold [OF assms]
  by (simp add: globaldb_get_general_cache_like_def Let_def)

lemma filter_same_key_distinct:
  "distinct (map f zs) \<Longrightarrow> k \<in> set zs \<Longrightarrow> filter (\<lambda>x. f k = f x) zs = [k]"
proof (induction zs)
  case Nil
  then show ?case by simp
next
  case (Cons z zs)
  show ?case
  proof (cases "k = z")
    case True
    have "filter (\<lambda>x. f z = f x) zs = []"
      using Cons.prems(1) by (auto simp: filter_empty_conv)
    then show ?thesis using True by simp
  next
    case False
    then have k: "k \<in> set zs" using Cons.prems(2) by simp
    have "f z \<notin> f ` set zs" using Cons.prems(1) by simp
    then have "f k \<noteq> f z" using k by (metis imageI)
    then show ?thesis using Cons.IH k Cons.prems(1) by simp
  qed
qed

lemma sort_key_permuted:
  assumes m: "mset xs = mset ys" and d: "distinct (map f xs)"
  shows "sort_key f xs = sort_key f ys"
proof (rule properties_for_sort_key)
  show "mset (sort_key f ys) = mset xs" using m by simp
  show "sorted (map f (sort_key f ys))" by simp
  fix k assume k: "k \<in> set (sort_key f ys)"
  have dy: "distinct (map f ys)"
  proof -
    have "mset (map f xs) = mset (map f ys)" using m by (metis mset_map)
    then show ?thesis using d by (metis mset_eq_imp_distinct_iff)
  qed
  have ds: "distinct (map f (sort_key f ys))" using dy by (simp add: distinct_map)
  have kx: "k \<in> set xs" using k m by (metis set_sort mset_eq_setD)
  show "filter (\<lambda>x. f k = f x) (sort_key f ys) = filter (\<lambda>x. f k = f x) xs"
    using filter_same_key_distinct [OF ds k] filter_same_key_distinct [OF d kx] by simp
qed

lemma insort_key_map_commute:
  "insort_key k (g x) (map g ys) = map g (insort_key (\<lambda>x. k (g x)) x ys)"
  by (induction ys) simp_all

lemma sort_key_map_commute:
  "sort_key k (map g xs) = map g (sort_key (\<lambda>x. k (g x)) xs)"
  by (induction xs) (simp_all add: insort_key_map_commute)

lemma index_order_pool_rows:
  "\<exists>ws'. mset ws' = mset ws \<and>
     map (\<lambda>r. (row_key r, row_value r)) (index_order (map (pool_token_row pfx ts) ws))
       = map (\<lambda>(i, a). (pfx @ py_str i, a)) ws'"
proof -
  let ?ws = "sort_key (\<lambda>w. (row_key (pool_token_row pfx ts w), row_value (pool_token_row pfx ts w))) ws"
  have "index_order (map (pool_token_row pfx ts) ws) = map (pool_token_row pfx ts) ?ws"
    unfolding index_order_def by (rule sort_key_map_commute)
  then have "map (\<lambda>r. (row_key r, row_value r)) (index_order (map (pool_token_row pfx ts) ws))
             = map (\<lambda>(i, a). (pfx @ py_str i, a)) ?ws"
    by (simp add: pool_token_row_def case_prod_beta)
  moreover have "mset ?ws = mset ws" by simp
  ultimately show ?thesis by blast
qed


section \<open>Lemmas about the integer literals\<close>

lemma underscore_not_digit [simp]: "\<not> is_digit CHR ''_''"
  by (simp add: is_digit_def)

lemma space_not_digit: "py_isspace c \<Longrightarrow> \<not> is_digit c \<and> c \<noteq> CHR ''_''"
  by (auto simp: is_digit_def py_isspace_def)

lemma digit_groups_tail: "digit_groups t \<Longrightarrow> digit_tail t"
  by (cases t) auto

lemma digit_last:
  "(digit_groups t \<longrightarrow> is_digit (last t)) \<and> (digit_tail t \<longrightarrow> t \<noteq> [] \<longrightarrow> is_digit (last t))"
proof (induction t rule: length_induct)
  case (1 t)
  show ?case
  proof (cases t)
    case Nil
    then show ?thesis by simp
  next
    case (Cons c cs)
    have IH: "(digit_groups cs \<longrightarrow> is_digit (last cs)) \<and> (digit_tail cs \<longrightarrow> cs \<noteq> [] \<longrightarrow> is_digit (last cs))"
      using 1 Cons by simp
    show ?thesis using Cons IH by (cases cs) (auto split: if_splits)
  qed
qed

lemma scan_digits_splits:
  "scan_digits u acc s = Some (n, rest) \<Longrightarrow>
     \<exists>t. s = t @ rest \<and> (if u then digit_groups t else digit_tail t)
         \<and> (rest = [] \<or> \<not> is_digit (hd rest) \<and> hd rest \<noteq> CHR ''_'')"
proof (induction s arbitrary: u acc)
  case Nil
  then show ?case by (auto split: if_splits)
next
  case (Cons c cs)
  show ?case
  proof (cases "is_digit c")
    case True
    then have "scan_digits False (acc * 10 + digit_val c) cs = Some (n, rest)"
      using Cons.prems by simp
    then obtain t where t: "cs = t @ rest" "digit_tail t"
        "rest = [] \<or> \<not> is_digit (hd rest) \<and> hd rest \<noteq> CHR ''_''"
      using Cons.IH by fastforce
    have "c \<noteq> CHR ''_''" using True by auto
    then have "(if u then digit_groups (c # t) else digit_tail (c # t))"
      using True t(2) by simp
    then show ?thesis using t(1,3) by (intro exI [of _ "c # t"]) simp
  next
    case False
    show ?thesis
    proof (cases "c = CHR ''_''")
      case True
      then have u: "\<not> u" and "scan_digits True acc cs = Some (n, rest)"
        using Cons.prems by (auto split: if_splits)
      then obtain t where t: "cs = t @ rest" "digit_groups t"
          "rest = [] \<or> \<not> is_digit (hd rest) \<and> hd rest \<noteq> CHR ''_''"
        using Cons.IH by fastforce
      then show ?thesis using True u by (intro exI [of _ "c # t"]) simp
    next
      case notu: False
      then have "\<not> u" and "rest = c # cs"
        using Cons.prems False by (auto split: if_splits)
      then show ?thesis using False notu by (intro exI [of _ "[]"]) simp
    qed
  qed
qed

lemma scan_digits_accepts:
  "(if u then digit_groups t else digit_tail t) \<Longrightarrow>
   rest = [] \<or> \<not> is_digit (hd rest) \<and> hd rest \<noteq> CHR ''_'' \<Longrightarrow>
     \<exists>n. scan_digits u acc (t @ rest) = Some (n, rest)"
proof (induction t arbitrary: u acc)
  case Nil
  then have "\<not> u" by (auto split: if_splits)
  then show ?case using Nil.prems(2) by (cases rest) auto
next
  case (Cons c cs)
  show ?case
  proof (cases "is_digit c")
    case True
    then have "c \<noteq> CHR ''_''" by auto
    then have "digit_tail cs" using Cons.prems(1) True by (auto split: if_splits)
    then obtain n where "scan_digits False (acc * 10 + digit_val c) (cs @ rest) = Some (n, rest)"
      using Cons.IH [of False] Cons.prems(2) by fastforce
    then show ?thesis using True by simp
  next
    case False
    then have u: "\<not> u" and c: "c = CHR ''_''" and g: "digit_groups cs"
      using Cons.prems(1) by (auto split: if_splits)
    obtain n where "scan_digits True acc (cs @ rest) = Some (n, rest)"
      using Cons.IH [of True] g Cons.prems(2) by fastforce
    then show ?thesis using False u c by simp
  qed
qed

lemma strip_space_core:
  assumes "\<forall>c\<in>set a. py_isspace c" and "\<forall>c\<in>set b. py_isspace c"
    and "x \<noteq> []" and "\<not> py_isspace (hd x)" and "\<not> py_isspace (last x)"
  shows "strip_space (a @ x @ b) = x"
proof -
  obtain h t where h: "x = h # t" using assms(3) by (cases x) auto
  obtain i l where l: "x = i @ [l]" using assms(3) by (metis append_butlast_last_id)
  have "dropWhile py_isspace (a @ x @ b) = dropWhile py_isspace (x @ b)"
    using assms(1) by (intro dropWhile_append2) simp
  then have 1: "dropWhile py_isspace (a @ x @ b) = x @ b"
    using assms(4) h by simp
  have "dropWhile py_isspace (rev b @ l # rev i) = dropWhile py_isspace (l # rev i)"
    using assms(2) by (intro dropWhile_append2) simp
  moreover have "rev (x @ b) = rev b @ l # rev i" using l by simp
  ultimately have 2: "dropWhile py_isspace (rev (x @ b)) = l # rev i"
    using assms(5) l by simp
  show ?thesis using 1 2 l by (simp add: strip_space_def)
qed

lemma strip_space_split:
  "\<exists>w. dropWhile py_isspace s = strip_space s @ w \<and> (\<forall>c\<in>set w. py_isspace c)"
proof -
  let ?s1 = "dropWhile py_isspace s"
  have "rev ?s1 = takeWhile py_isspace (rev ?s1) @ dropWhile py_isspace (rev ?s1)" by simp
  then have "?s1 = rev (dropWhile py_isspace (rev ?s1)) @ rev (takeWhile py_isspace (rev ?s1))"
    by (metis rev_append rev_rev_ident)
  moreover have "\<forall>c\<in>set (rev (takeWhile py_isspace (rev ?s1))). py_isspace c"
    by (auto dest: set_takeWhileD)
  ultimately show ?thesis unfolding strip_space_def by blast
qed

lemma py_int_accepted_is_literal:
  assumes "py_int s = Inr n"
  shows "int_literal s"
proof -
  let ?s1 = "dropWhile py_isspace s"
  obtain sgn s2 where sg: "?s1 = sgn @ s2" "sgn = [] \<or> sgn = ''+'' \<or> sgn = ''-''"
    and s2: "(case ?s1 of [] \<Rightarrow> (False, [])
             | c # cs \<Rightarrow> if c = CHR ''+'' then (False, cs) else if c = CHR ''-'' then (True, cs)
                        else (False, ?s1)) = (sgn = ''-'', s2)"
    and nosign: "sgn = [] \<longrightarrow> s2 = [] \<or> (hd s2 \<noteq> CHR ''+'' \<and> hd s2 \<noteq> CHR ''-'')"
  proof (cases ?s1)
    case Nil
    show ?thesis by (rule that [of "[]" "[]"]) (simp_all add: Nil)
  next
    case (Cons c cs)
    show ?thesis
    proof (cases "c = CHR ''+''")
      case True
      show ?thesis by (rule that [of "''+''" cs]) (simp_all add: Cons True)
    next
      case np: False
      show ?thesis
      proof (cases "c = CHR ''-''")
        case True
        show ?thesis by (rule that [of "''-''" cs]) (simp_all add: Cons True)
      next
        case False
        show ?thesis by (rule that [of "[]" ?s1]) (simp_all add: Cons False np)
      qed
    qed
  qed
  from assms s2 obtain c cs m rest where
    c: "s2 = c # cs" "is_digit c" and sc: "scan_digits False 0 s2 = Some (m, rest)"
    and sp: "dropWhile py_isspace rest = []"
    by (auto simp: py_int_def Let_def split: list.splits if_splits option.splits prod.splits)
  obtain t where t: "s2 = t @ rest" "digit_tail t"
      "rest = [] \<or> \<not> is_digit (hd rest) \<and> hd rest \<noteq> CHR ''_''"
    using scan_digits_splits [OF sc] by auto
  have tne: "t \<noteq> []"
  proof
    assume "t = []"
    then have "rest = c # cs" using t(1) c(1) by simp
    then show False using t(3) c(2) by simp
  qed
  then have hd_t: "hd t = c" using t(1) c(1) by (cases t) auto
  have g: "digit_groups t" using tne hd_t c(2) t(2) by (cases t) (auto split: if_splits)
  have lastd: "is_digit (last t)" using digit_last g by blast
  have restsp: "\<forall>x\<in>set rest. py_isspace x" using sp by (simp add: dropWhile_eq_Nil_conv)
  have x: "sgn @ t \<noteq> []" using tne by simp
  have hdx: "\<not> py_isspace (hd (sgn @ t))"
    using sg(2) hd_t c(2) tne is_digit_not_space [of c]
    by (auto simp: py_isspace_def)
  have lastx: "\<not> py_isspace (last (sgn @ t))"
    using tne lastd is_digit_not_space by simp
  have "dropWhile py_isspace s = [] @ (sgn @ t) @ rest" using sg(1) t(1) by simp
  have st: "strip_space s = sgn @ t"
  proof -
    have "strip_space s = strip_space (dropWhile py_isspace s)"
      by (simp add: strip_space_def)
    also have "\<dots> = strip_space ([] @ (sgn @ t) @ rest)" using sg(1) t(1) by simp
    also have "\<dots> = sgn @ t"
      using restsp x hdx lastx by (intro strip_space_core) simp_all
    finally show ?thesis .
  qed
  have "drop_sign (sgn @ t) = t"
    using sg(2) nosign tne hd_t c(2) is_digit_not_sign [of c] t(1)
    by (cases t) (auto simp: drop_sign_def)
  then show ?thesis using st g by (simp add: int_literal_def)
qed


lemma py_int_literal_is_accepted:
  assumes "int_literal s"
  shows "\<exists>n. py_int s = Inr n"
proof -
  let ?s1 = "dropWhile py_isspace s"
  let ?x = "strip_space s"
  obtain w where w: "?s1 = ?x @ w" "\<forall>c\<in>set w. py_isspace c"
    using strip_space_split by blast
  have g: "digit_groups (drop_sign ?x)" using assms by (simp add: int_literal_def)
  have stop: "w = [] \<or> \<not> is_digit (hd w) \<and> hd w \<noteq> CHR ''_''"
    using w(2) space_not_digit by (cases w) auto
  have wsp: "dropWhile py_isspace w = []" using w(2) by (simp add: dropWhile_eq_Nil_conv)
  have xne: "?x \<noteq> []" using g by (auto simp: drop_sign_def)
  then obtain c cs where x: "?x = c # cs" by (cases ?x) auto
  show ?thesis
  proof (cases "c = CHR ''+'' \<or> c = CHR ''-''")
    case True
    then have gc: "digit_groups cs" using g x by (simp add: drop_sign_def)
    then obtain d ds where cs: "cs = d # ds" "is_digit d" by (cases cs) auto
    obtain n where n: "scan_digits False 0 (cs @ w) = Some (n, w)"
      using scan_digits_accepts [of False cs w 0] digit_groups_tail [OF gc] stop by auto
    have s1: "?s1 = c # cs @ w" using w(1) x by simp
    show ?thesis using True s1 cs n wsp
      by (auto simp: py_int_def Let_def)
  next
    case False
    then have gc: "digit_groups (c # cs)" using g x by (simp add: drop_sign_def)
    then have d: "is_digit c" by simp
    obtain n where n: "scan_digits False 0 ((c # cs) @ w) = Some (n, w)"
      using scan_digits_accepts [of False "c # cs" w 0] digit_groups_tail [OF gc] stop by auto
    have s1: "?s1 = c # cs @ w" using w(1) x by simp
    show ?thesis using False s1 d n wsp
      by (auto simp: py_int_def Let_def)
  qed
qed

lemma py_int_accepts_iff: "(\<exists>n. py_int s = Inr n) = int_literal s"
  using py_int_accepted_is_literal py_int_literal_is_accepted by blast


section \<open>The claims\<close>

text \<open>
  C1 (as amended). When a rule is registered under the identifier of \<open>(T, S, None)\<close> and
  none under that of \<open>(T, S, Some cp)\<close>, \<open>get_event_settings\<close> on the
  \<open>EvmEvent\<close> with \<open>(T, S, Some cp)\<close> returns that rule, paired with the callback
  registered under the counterparty-free identifier. For an event that is not an
  \<open>EvmEvent\<close> and whose full identifier has no rule, it returns \<open>None\<close> paired with
  the callback registered under that same full identifier, if there is one (so
  \<open>(None, None)\<close> only when no callback is registered there).
\<close>

theorem get_event_settings_tiers:
  "(event_settings m (ident T S None) = Some r \<longrightarrow>
    event_settings m (ident T S (Some cp)) = None \<longrightarrow>
      get_event_settings ident m (EvmEvent T S (Some cp))
        = (Some r, event_callbacks m (ident T S None)))
   \<and> (event_settings m (get_type_identifier ident (HistoryBaseEntry T S) True) = None \<longrightarrow>
      get_event_settings ident m (HistoryBaseEntry T S)
        = (None, event_callbacks m (get_type_identifier ident (HistoryBaseEntry T S) True)))"
  by (simp add: get_event_settings_def Let_def)

theorem get_event_settings_tiers_witness:
  "get_event_settings (\<lambda>(t::int) (s::int) c. if c = None then t + s else t + s + 100)
     \<lparr>database = [], aggregators = Map.empty,
      event_settings = [3 \<mapsto> ''rule''], event_callbacks = (Map.empty :: int \<rightharpoonup> string)\<rparr>
     (EvmEvent 1 2 (Some ''foo'')) = (Some ''rule'', None)
   \<and> get_event_settings (\<lambda>(t::int) (s::int) c. if c = None then t + s else t + s + 100)
     \<lparr>database = [], aggregators = Map.empty,
      event_settings = [3 \<mapsto> ''rule''], event_callbacks = [9 \<mapsto> ''callback'']\<rparr>
     (HistoryBaseEntry 4 5) = (None, Some ''callback'')"
  using get_event_settings_tiers
    [where ident = "\<lambda>(t::int) (s::int) c. if c = None then t + s else t + s + 100"
       and m = "\<lparr>database = [], aggregators = Map.empty,
                 event_settings = [3 \<mapsto> ''rule''], event_callbacks = (Map.empty :: int \<rightharpoonup> string)\<rparr>"
       and T = 1 and S = 2 and r = "''rule''" and cp = "''foo''"]
    get_event_settings_tiers
    [where ident = "\<lambda>(t::int) (s::int) c. if c = None then t + s else t + s + 100"
       and m = "\<lparr>database = [], aggregators = Map.empty,
                 event_settings = [3 \<mapsto> ''rule''], event_callbacks = [9 \<mapsto> ''callback'']\<rparr>"
       and T = 4 and S = 5 and r = "''rule''" and cp = "''foo''"]
  by simp

text \<open>
  C1 as stated fails: a callback can be registered under an identifier that has no rule.
  After \<open>reset\<close> has loaded one rule from the database and, from the aggregators, a
  callback under the identifier of a plain history entry that has no rule,
  \<open>get_event_settings\<close> on that entry misses the rule and still returns the callback,
  not \<open>(None, None)\<close>.
\<close>

theorem non_evm_miss_may_return_callback:
  "event_settings
     (reset (\<lambda>(t::int) (s::int) c. if c = None then t + s else t + s + 100)
        \<lparr>database = [((1, 2, None), ''rule'')], aggregators = [9 \<mapsto> ''callback''],
         event_settings = Map.empty, event_callbacks = Map.empty\<rparr>)
     (get_type_identifier (\<lambda>(t::int) (s::int) c. if c = None then t + s else t + s + 100)
        (HistoryBaseEntry 4 5) True) = None
   \<and> get_event_settings (\<lambda>(t::int) (s::int) c. if c = None then t + s else t + s + 100)
     (reset (\<lambda>(t::int) (s::int) c. if c = None then t + s else t + s + 100)
        \<lparr>database = [((1, 2, None), ''rule'')], aggregators = [9 \<mapsto> ''callback''],
         event_settings = Map.empty, event_callbacks = Map.empty\<rparr>)
     (HistoryBaseEntry 4 5) = (None, Some ''callback'')
   \<and> get_event_settings (\<lambda>(t::int) (s::int) c. if c = None then t + s else t + s + 100)
     (reset (\<lambda>(t::int) (s::int) c. if c = None then t + s else t + s + 100)
        \<lparr>database = [((1, 2, None), ''rule'')], aggregators = [9 \<mapsto> ''callback''],
         event_settings = Map.empty, event_callbacks = Map.empty\<rparr>)
     (HistoryBaseEntry 4 5) \<noteq> (None, None)"
  by (simp add: get_event_settings_def reset_def query_db_rules_def Let_def)

text \<open>
  C2. Let the store hold no row that the reader's prefix query for pool \<open>X\<close> matches,
  let \<open>X\<close> have the length of an address, and let the tokens be written under the
  pool-tokens tag, \<open>X\<close> and pairwise distinct decimal indices, in any order. Then
  \<open>read_curve_pool_tokens\<close> for \<open>X\<close> returns exactly the written addresses, in
  ascending order of their index.
\<close>

theorem read_curve_pool_tokens_sorted_by_index:
  assumes len: "length pool_address = length ZERO_ADDRESS"
    and dist: "distinct (map fst ws)"
    and none: "\<forall>r\<in>set (general_cache db).
                 \<not> like (compute_cache_key ser [Tag CURVE_POOL_TOKENS, Raw pool_address] @ ''%'') (row_key r)"
  shows "read_curve_pool_tokens ser CURVE_POOL_TOKENS
           (store_curve_pool_tokens ser CURVE_POOL_TOKENS db pool_address ws ts) pool_address
         = Inr (map snd (sort_key fst ws))"
proof -
  let ?pfx = "ser CURVE_POOL_TOKENS @ pool_address"
  let ?m = "\<lambda>r. like (ser CURVE_POOL_TOKENS @ pool_address @ ''%'') (row_key r)"
  let ?db = "store_curve_pool_tokens ser CURVE_POOL_TOKENS db pool_address ws ts"
  have old: "filter ?m (general_cache db) = []"
    using none by (auto simp: filter_empty_conv)
  have "filter ?m (general_cache ?db)
        = filter ?m (general_cache db) @ map (pool_token_row ?pfx ts) ws"
    using dist none by (intro store_curve_pool_tokens_matching) auto
  then have rows: "filter ?m (general_cache ?db) = map (pool_token_row ?pfx ts) ws"
    using old by simp
  obtain ws' where perm: "mset ws' = mset ws"
    and ord: "map (\<lambda>r. (row_key r, row_value r)) (index_order (map (pool_token_row ?pfx ts) ws))
              = map (\<lambda>(i, a). (?pfx @ py_str i, a)) ws'"
    using index_order_pool_rows [of ws ?pfx ts] by blast
  have data: "globaldb_get_general_cache_keys_and_values_like ser ?db
                [Tag CURVE_POOL_TOKENS, Raw pool_address]
              = map (\<lambda>(i, a). (?pfx @ py_str i, a)) ws'"
    using rows ord
    by (simp add: globaldb_get_general_cache_keys_and_values_like_def)
  have base: "BASE_POOL_TOKENS_KEY_LENGTH ser CURVE_POOL_TOKENS = length ?pfx"
    using len by (simp add: BASE_POOL_TOKENS_KEY_LENGTH_eq)
  have coll: "collect_found_tokens (BASE_POOL_TOKENS_KEY_LENGTH ser CURVE_POOL_TOKENS) []
                (globaldb_get_general_cache_keys_and_values_like ser ?db
                   [Tag CURVE_POOL_TOKENS, Raw pool_address])
              = Inr (map (\<lambda>(i, a). (int i, a)) ws')"
    unfolding data base using collect_found_tokens_indexed [of ?pfx "[]" ws'] by simp
  have same: "sort_key fst ws' = sort_key fst ws"
  proof (rule sort_key_permuted [symmetric])
    show "mset ws = mset ws'" using perm by simp
    show "distinct (map fst ws)" by (rule dist)
  qed
  have "read_curve_pool_tokens ser CURVE_POOL_TOKENS ?db pool_address
        = Inr (map snd (sort_key fst ws'))"
    unfolding read_curve_pool_tokens_def Let_def coll
    by (simp only: sort_key_int_fst map_snd_int_fst sum.case)
  then show ?thesis using same by simp
qed

theorem read_curve_pool_tokens_sorted_by_index_witness:
  "read_curve_pool_tokens (\<lambda>u::unit. ''CURVE_POOL_TOKENS'') ()
     (store_curve_pool_tokens (\<lambda>u::unit. ''CURVE_POOL_TOKENS'') ()
        \<lparr>general_cache =
           [\<lparr>row_key = ''CURVE_POOL_TOKENS0xbEbc44782C7dB0a1A60Cb6fe97d0b483032FF1C70'',
             row_value = ''0xD'', last_queried_ts = 1\<rparr>],
         unique_cache = []\<rparr>
        ''0x6B175474E89094C44Da98b954EedeAC495271d0F''
        [(2, ''0xC''), (0, ''0xA''), (10, ''0xK''), (1, ''0xB'')] 5)
     ''0x6B175474E89094C44Da98b954EedeAC495271d0F''
   = Inr [''0xA'', ''0xB'', ''0xC'', ''0xK'']"
proof -
  have len: "length ''0x6B175474E89094C44Da98b954EedeAC495271d0F'' = length ZERO_ADDRESS"
    by (simp add: ZERO_ADDRESS_def)
  have dist: "distinct (map fst [(2::nat, ''0xC''), (0, ''0xA''), (10, ''0xK''), (1, ''0xB'')])"
    by simp
  have none: "\<forall>r\<in>set (general_cache
        \<lparr>general_cache =
           [\<lparr>row_key = ''CURVE_POOL_TOKENS0xbEbc44782C7dB0a1A60Cb6fe97d0b483032FF1C70'',
             row_value = ''0xD'', last_queried_ts = 1\<rparr>],
         unique_cache = []\<rparr>).
      \<not> like (compute_cache_key (\<lambda>u::unit. ''CURVE_POOL_TOKENS'')
                [Tag (), Raw ''0x6B175474E89094C44Da98b954EedeAC495271d0F''] @ ''%'') (row_key r)"
    by code_simp
  have srt: "map snd (sort_key fst [(2::nat, ''0xC''), (0, ''0xA''), (10, ''0xK''), (1, ''0xB'')])
             = [''0xA'', ''0xB'', ''0xC'', ''0xK'']"
    by simp
  show ?thesis
    using read_curve_pool_tokens_sorted_by_index [OF len dist none, of 5] srt by simp
qed

text \<open>
  C3. The claim is that \<open>globaldb_get_general_cache_like\<close> returns the values of exactly
  the rows whose key starts with the computed prefix. The query decides with \<open>LIKE\<close>,
  which compares ASCII letters without regard to case: after one value is written under the
  key \<open>0xAB1\<close>, the query for the prefix \<open>0xab\<close> (no wildcard character in it) returns
  that value, although the key does not start with \<open>0xab\<close>.
\<close>

theorem get_general_cache_like_ignores_case:
  "globaldb_get_general_cache_like (\<lambda>u::unit. ''CURVE_POOL_TOKENS'')
     (globaldb_set_general_cache_values_at_ts (\<lambda>u::unit. ''CURVE_POOL_TOKENS'')
        \<lparr>general_cache = [], unique_cache = []\<rparr> [Raw ''0xAB'', Raw ''1''] [''token''] 7)
     [Raw ''0xab''] = [''token'']
   \<and> \<not> prefix (compute_cache_key (\<lambda>u::unit. ''CURVE_POOL_TOKENS'') [Raw ''0xab''])
               (compute_cache_key (\<lambda>u::unit. ''CURVE_POOL_TOKENS'') [Raw ''0xAB'', Raw ''1''])"
  by code_simp

text \<open>
  C4. When no row of the general cache has the key of \<open>K\<close>, the oldest-timestamp query
  returns 0; after one value is written under \<open>K\<close> at time \<open>t\<close> it returns \<open>t\<close>;
  after a different value is then written under \<open>K\<close> at time \<open>t2\<close> it returns
  \<open>min t t2\<close> (whichever of the two times is the later one). In every state with a row
  under the key, the query returns the least \<open>last_queried_ts\<close> of the rows that have
  exactly that key.
\<close>

theorem oldest_queried_ts_scenario:
  assumes absent: "\<forall>r\<in>set (general_cache db). row_key r \<noteq> compute_cache_key ser K"
    and diff: "v2 \<noteq> v1"
  shows "globaldb_get_general_cache_last_queried_ts_by_key ser db K = 0
       \<and> globaldb_get_general_cache_last_queried_ts_by_key ser
           (globaldb_set_general_cache_values_at_ts ser db K [v1] t) K = t
       \<and> globaldb_get_general_cache_last_queried_ts_by_key ser
           (globaldb_set_general_cache_values_at_ts ser
             (globaldb_set_general_cache_values_at_ts ser db K [v1] t) K [v2] t2) K = min t t2
       \<and> (filter (\<lambda>r. row_key r = compute_cache_key ser K) (general_cache db') \<noteq> [] \<longrightarrow>
            globaldb_get_general_cache_last_queried_ts_by_key ser db' K =
              Min (last_queried_ts `
                set (filter (\<lambda>r. row_key r = compute_cache_key ser K) (general_cache db'))))"
proof -
  let ?k = "compute_cache_key ser K"
  have e: "filter (\<lambda>r. row_key r = ?k) (general_cache db) = []"
    using absent by (rule filter_key_absent)
  have a1: "\<And>P. filter (\<lambda>x. row_key x = ?k \<and> P x) (general_cache db) = []"
    using absent by (auto simp: filter_empty_conv)
  have f1: "filter (\<lambda>r. row_key r = ?k)
             (general_cache (globaldb_set_general_cache_values_at_ts ser db K [v1] t))
           = [\<lparr>row_key = ?k, row_value = v1, last_queried_ts = t\<rparr>]"
    using absent by (auto simp: globaldb_set_general_cache_values_at_ts_def insert_or_replace_general_def
        Let_def filter_empty_conv)
  have f2: "filter (\<lambda>r. row_key r = ?k)
             (general_cache (globaldb_set_general_cache_values_at_ts ser
               (globaldb_set_general_cache_values_at_ts ser db K [v1] t) K [v2] t2))
           = [\<lparr>row_key = ?k, row_value = v1, last_queried_ts = t\<rparr>,
              \<lparr>row_key = ?k, row_value = v2, last_queried_ts = t2\<rparr>]"
    using absent diff by (auto simp: globaldb_set_general_cache_values_at_ts_def insert_or_replace_general_def
        Let_def filter_empty_conv)
  have g: "filter (\<lambda>r. row_key r = ?k) (general_cache db') \<noteq> [] \<longrightarrow>
             globaldb_get_general_cache_last_queried_ts_by_key ser db' K =
               Min (last_queried_ts ` set (filter (\<lambda>r. row_key r = ?k) (general_cache db')))"
    by (simp add: oldest_ts_Min)
  have s: "globaldb_get_general_cache_last_queried_ts_by_key ser db K = 0
       \<and> globaldb_get_general_cache_last_queried_ts_by_key ser
           (globaldb_set_general_cache_values_at_ts ser db K [v1] t) K = t
       \<and> globaldb_get_general_cache_last_queried_ts_by_key ser
           (globaldb_set_general_cache_values_at_ts ser
             (globaldb_set_general_cache_values_at_ts ser db K [v1] t) K [v2] t2) K = min t t2"
    by (simp add: oldest_ts_Min e f1 f2 min_def)
  show ?thesis using s g by blast
qed

theorem oldest_queried_ts_scenario_witness:
  "globaldb_get_general_cache_last_queried_ts_by_key (\<lambda>u::unit. ''CURVE_POOL_TOKENS'')
     \<lparr>general_cache = [\<lparr>row_key = ''other'', row_value = ''w'', last_queried_ts = 2\<rparr>],
      unique_cache = []\<rparr> [Tag (), Raw ''0xAb''] = 0
   \<and> globaldb_get_general_cache_last_queried_ts_by_key (\<lambda>u::unit. ''CURVE_POOL_TOKENS'')
       (globaldb_set_general_cache_values_at_ts (\<lambda>u::unit. ''CURVE_POOL_TOKENS'')
          \<lparr>general_cache = [\<lparr>row_key = ''other'', row_value = ''w'', last_queried_ts = 2\<rparr>],
           unique_cache = []\<rparr> [Tag (), Raw ''0xAb''] [''a''] 5)
       [Tag (), Raw ''0xAb''] = 5
   \<and> globaldb_get_general_cache_last_queried_ts_by_key (\<lambda>u::unit. ''CURVE_POOL_TOKENS'')
       (globaldb_set_general_cache_values_at_ts (\<lambda>u::unit. ''CURVE_POOL_TOKENS'')
         (globaldb_set_general_cache_values_at_ts (\<lambda>u::unit. ''CURVE_POOL_TOKENS'')
            \<lparr>general_cache = [\<lparr>row_key = ''other'', row_value = ''w'', last_queried_ts = 2\<rparr>],
             unique_cache = []\<rparr> [Tag (), Raw ''0xAb''] [''a''] 5)
         [Tag (), Raw ''0xAb''] [''b''] 9)
       [Tag (), Raw ''0xAb''] = 5"
proof -
  have absent: "\<forall>r\<in>set (general_cache
                   \<lparr>general_cache = [\<lparr>row_key = ''other'', row_value = ''w'', last_queried_ts = 2\<rparr>],
                    unique_cache = []\<rparr>).
                 row_key r \<noteq> compute_cache_key (\<lambda>u::unit. ''CURVE_POOL_TOKENS'') [Tag (), Raw ''0xAb'']"
    by simp
  have diff: "''b'' \<noteq> ''a''" by simp
  show ?thesis
    using oldest_queried_ts_scenario [OF absent diff, where t = 5 and ?t2.0 = 9] by simp
qed

text \<open>
  C5. After \<open>set_unique(K, v1)\<close> and then \<open>set_unique(K, v2)\<close>, from any state and at
  any two times, the unique cache has exactly one row with the computed key, it holds
  \<open>v2\<close>, and \<open>get_unique(K)\<close> returns \<open>v2\<close>.
\<close>

theorem set_unique_twice_keeps_last:
  "filter (\<lambda>r. row_key r = compute_cache_key ser K)
      (unique_cache
        (globaldb_set_unique_cache_value_at_ts ser
          (globaldb_set_unique_cache_value_at_ts ser db K v1 t1) K v2 t2))
     = [\<lparr>row_key = compute_cache_key ser K, row_value = v2, last_queried_ts = t2\<rparr>]
   \<and> globaldb_get_unique_cache_value ser
        (globaldb_set_unique_cache_value_at_ts ser
          (globaldb_set_unique_cache_value_at_ts ser db K v1 t1) K v2 t2) K = Some v2"
  by (simp add: globaldb_set_unique_cache_value_at_ts_def globaldb_get_unique_cache_value_def
      insert_or_replace_unique_def Let_def)

theorem set_unique_twice_keeps_last_witness:
  "filter (\<lambda>r. row_key r = ''CURVE_POOL_TOKENS0xAb'')
      (unique_cache
        (globaldb_set_unique_cache_value_at_ts (\<lambda>u::unit. ''CURVE_POOL_TOKENS'')
          (globaldb_set_unique_cache_value_at_ts (\<lambda>u::unit. ''CURVE_POOL_TOKENS'')
             \<lparr>general_cache = [],
              unique_cache = [\<lparr>row_key = ''CURVE_POOL_TOKENS0xAb'', row_value = ''v0'', last_queried_ts = 1\<rparr>,
                              \<lparr>row_key = ''other'', row_value = ''w'', last_queried_ts = 2\<rparr>]\<rparr>
             [Tag (), Raw ''0xAb''] ''v1'' 3)
          [Tag (), Raw ''0xAb''] ''v2'' 4))
     = [\<lparr>row_key = ''CURVE_POOL_TOKENS0xAb'', row_value = ''v2'', last_queried_ts = 4\<rparr>]
   \<and> globaldb_get_unique_cache_value (\<lambda>u::unit. ''CURVE_POOL_TOKENS'')
        (globaldb_set_unique_cache_value_at_ts (\<lambda>u::unit. ''CURVE_POOL_TOKENS'')
          (globaldb_set_unique_cache_value_at_ts (\<lambda>u::unit. ''CURVE_POOL_TOKENS'')
             \<lparr>general_cache = [],
              unique_cache = [\<lparr>row_key = ''CURVE_POOL_TOKENS0xAb'', row_value = ''v0'', last_queried_ts = 1\<rparr>,
                              \<lparr>row_key = ''other'', row_value = ''w'', last_queried_ts = 2\<rparr>]\<rparr>
             [Tag (), Raw ''0xAb''] ''v1'' 3)
          [Tag (), Raw ''0xAb''] ''v2'' 4)
        [Tag (), Raw ''0xAb''] = Some ''v2''"
  using set_unique_twice_keeps_last
    [where ser = "\<lambda>u::unit. ''CURVE_POOL_TOKENS''" and K = "[Tag (), Raw ''0xAb'']"
       and ?v1.0 = "''v1''" and ?v2.0 = "''v2''" and ?t1.0 = 3 and ?t2.0 = 4
       and db = "\<lparr>general_cache = [],
              unique_cache = [\<lparr>row_key = ''CURVE_POOL_TOKENS0xAb'', row_value = ''v0'', last_queried_ts = 1\<rparr>,
                              \<lparr>row_key = ''other'', row_value = ''w'', last_queried_ts = 2\<rparr>]\<rparr>"]
  by simp

text \<open>
  C6. Two distinct pool identifiers of the same length give, after the same tag, two
  distinct keys, and neither key is a prefix of the other.
\<close>

theorem pool_keys_distinct_not_prefix:
  assumes "P1 \<noteq> P2" and "length P1 = length P2"
  shows "compute_cache_key ser [Tag TAG, Raw P1] \<noteq> compute_cache_key ser [Tag TAG, Raw P2]
         \<and> \<not> prefix (compute_cache_key ser [Tag TAG, Raw P1]) (compute_cache_key ser [Tag TAG, Raw P2])
         \<and> \<not> prefix (compute_cache_key ser [Tag TAG, Raw P2]) (compute_cache_key ser [Tag TAG, Raw P1])"
proof -
  have "\<not> prefix P1 P2"
  proof
    assume "prefix P1 P2"
    then obtain zs where "P2 = P1 @ zs" by (auto simp: prefix_def)
    with assms show False by auto
  qed
  moreover have "\<not> prefix P2 P1"
  proof
    assume "prefix P2 P1"
    then obtain zs where "P1 = P2 @ zs" by (auto simp: prefix_def)
    with assms show False by auto
  qed
  ultimately show ?thesis using assms(1) by simp
qed

theorem pool_keys_distinct_not_prefix_witness:
  "compute_cache_key (\<lambda>u::unit. ''CURVE_POOL_TOKENS'') [Tag (), Raw ''0xAb'']
     \<noteq> compute_cache_key (\<lambda>u::unit. ''CURVE_POOL_TOKENS'') [Tag (), Raw ''0xCd'']
   \<and> \<not> prefix (compute_cache_key (\<lambda>u::unit. ''CURVE_POOL_TOKENS'') [Tag (), Raw ''0xAb''])
               (compute_cache_key (\<lambda>u::unit. ''CURVE_POOL_TOKENS'') [Tag (), Raw ''0xCd''])
   \<and> \<not> prefix (compute_cache_key (\<lambda>u::unit. ''CURVE_POOL_TOKENS'') [Tag (), Raw ''0xCd''])
               (compute_cache_key (\<lambda>u::unit. ''CURVE_POOL_TOKENS'') [Tag (), Raw ''0xAb''])"
proof -
  have d: "''0xAb'' \<noteq> ''0xCd''" by simp
  have l: "length ''0xAb'' = length ''0xCd''" by simp
  show ?thesis
    by (rule pool_keys_distinct_not_prefix [OF d l])
qed

text \<open>
  C7. \<open>compute_cache_key\<close> is a total function of its argument alone: on every part
  sequence the loop returns the concatenation, in input order and with no delimiter, of the
  piece of each part (the serialization of a tag, a raw string verbatim), and equal inputs
  give equal keys.
\<close>

theorem compute_cache_key_is_concat_pieces:
  "compute_cache_key ser key_parts = concat_pieces ser key_parts
   \<and> (\<forall>key_parts'. key_parts' = key_parts \<longrightarrow>
          compute_cache_key ser key_parts' = compute_cache_key ser key_parts)
   \<and> emit ser (Tag t) = ser t \<and> emit ser (Raw s) = s"
  by (simp add: compute_cache_key_concat concat_pieces_def)

theorem compute_cache_key_is_concat_pieces_witness:
  "compute_cache_key (\<lambda>b. if b then ''CURVE_POOL_TOKENS'' else ''CURVE_LP_TOKENS'')
     [Tag True, Raw ''0xAb'', Raw ''1''] = ''CURVE_POOL_TOKENS0xAb1''"
  using compute_cache_key_is_concat_pieces
    [of "\<lambda>b. if b then ''CURVE_POOL_TOKENS'' else ''CURVE_LP_TOKENS''"
        "[Tag True, Raw ''0xAb'', Raw ''1'']"]
  by (simp add: concat_pieces_def)

text \<open>
  C8. After \<open>clean_rules\<close>, and after any further calls among which there is no
  \<open>reset\<close>, \<open>get_event_settings\<close> returns \<open>(None, None)\<close> for every event;
  \<open>clean_rules\<close> twice is \<open>clean_rules\<close> once, and on a manager whose two mappings
  are already empty it changes nothing.
\<close>

theorem clean_rules_empties_until_reset:
  "(Reset \<notin> set calls \<longrightarrow>
      get_event_settings ident (foldl (call_manager ident) (clean_rules m) calls) event = (None, None))
   \<and> clean_rules (clean_rules m) = clean_rules m
   \<and> (event_settings m = Map.empty \<longrightarrow> event_callbacks m = Map.empty \<longrightarrow> clean_rules m = m)"
proof -
  have "get_event_settings ident (foldl (call_manager ident) (clean_rules m) calls) event = (None, None)"
    if "Reset \<notin> set calls"
  proof -
    have "event_settings (foldl (call_manager ident) (clean_rules m) calls) = Map.empty
          \<and> event_callbacks (foldl (call_manager ident) (clean_rules m) calls) = Map.empty"
      using that by (intro clean_then_calls_empty) (simp_all add: clean_rules_def)
    then show ?thesis by (simp add: get_event_settings_def Let_def)
  qed
  moreover have "clean_rules (clean_rules m) = clean_rules m"
    by (simp add: clean_rules_def)
  moreover have "clean_rules m = m" if "event_settings m = Map.empty" "event_callbacks m = Map.empty"
    using that by (simp add: clean_rules_def)
  ultimately show ?thesis by blast
qed

theorem clean_rules_empties_until_reset_witness:
  "get_event_settings (\<lambda>(t::int) (s::int) c. if c = None then t + s else t + s + 100)
     (foldl (call_manager (\<lambda>(t::int) (s::int) c. if c = None then t + s else t + s + 100))
        (clean_rules
           \<lparr>database = [((1, 2, None), ''rule'')], aggregators = [3 \<mapsto> ''callback''],
            event_settings = [3 \<mapsto> ''rule''], event_callbacks = [3 \<mapsto> ''callback'']\<rparr>)
        [GetEventSettings (EvmEvent 1 2 None), CleanRules, GetEventSettings (HistoryBaseEntry 1 2)])
     (EvmEvent 1 2 (Some ''foo'')) = (None, None)"
proof -
  have h: "Reset \<notin> set [GetEventSettings (EvmEvent (1::int) (2::int) None), CleanRules,
                         GetEventSettings (HistoryBaseEntry 1 2)]"
    by simp
  show ?thesis
    using clean_rules_empties_until_reset
      [where ident = "\<lambda>(t::int) (s::int) c. if c = None then t + s else t + s + 100"
         and calls = "[GetEventSettings (EvmEvent 1 2 None), CleanRules,
                       GetEventSettings (HistoryBaseEntry 1 2)]"
         and m = "\<lparr>database = [((1, 2, None), ''rule'')], aggregators = [3 \<mapsto> ''callback''],
            event_settings = [3 \<mapsto> ''rule''], event_callbacks = [3 \<mapsto> ''callback'']\<rparr>"
         and event = "EvmEvent 1 2 (Some ''foo'')"] h
    by blast
qed




text \<open>
  C10. \<open>compute_cache_key\<close> maps the concatenation of two part sequences to the
  concatenation of their keys, and the empty sequence to the empty string (it does not fail
  there).
\<close>

theorem compute_cache_key_append:
  "compute_cache_key ser (F1 @ F2) = compute_cache_key ser F1 @ compute_cache_key ser F2
   \<and> compute_cache_key ser [] = []"
  by (simp add: compute_cache_key_concat)

end
